theory Spec2Isabelle
  imports Complex_Main
begin

section \<open>The essay editor of \<open>src/app/page.tsx\<close>\<close>

text \<open>
  The page component \<open>Home\<close> keeps the essay, its undo history and the last analysis in
  React state, and changes them in event handlers. Each handler is modelled as a function
  from the state of the render it was created in to the state of the next render. A
  JavaScript string is a sequence of code units; the model writes it as a \<open>string\<close>,
  one \<open>char\<close> per code unit.
\<close>

subsection \<open>String and array primitives of JavaScript\<close>

text \<open>
  \<open>StringIndexOf(S, R, 0)\<close> of ECMAScript: the least position at which \<open>R\<close> occurs in
  \<open>S\<close>, \<open>None\<close> when there is none. The empty string occurs at position 0.
\<close>

fun indexOf :: "'a list \<Rightarrow> 'a list \<Rightarrow> nat option" where
  "indexOf [] R = (if R = [] then Some 0 else None)"
| "indexOf (c # S) R =
     (if take (length R) (c # S) = R then Some 0 else map_option Suc (indexOf S R))"

text \<open>\<open>S.includes(R)\<close>.\<close>

definition includes_str :: "'a list \<Rightarrow> 'a list \<Rightarrow> bool" where
  "includes_str S R = (indexOf S R \<noteq> None)"

text \<open>
  \<open>GetSubstitution\<close> for a string pattern (no captures, no named groups): in the
  replacement template \<open>$$\<close> stands for a dollar sign, \<open>$&\<close> for the matched text,
  \<open>$`\<close> for the text before the match and \<open>$'\<close> for the text after it. A dollar sign
  before anything else (a digit and \<open>$<\<close> included, as there are no captures) is copied.
\<close>

fun GetSubstitution :: "string \<Rightarrow> string \<Rightarrow> nat \<Rightarrow> string \<Rightarrow> string" where
  "GetSubstitution matched str position [] = []"
| "GetSubstitution matched str position [c] = [c]"
| "GetSubstitution matched str position (c # d # template) =
     (if c = CHR ''$'' then
        (if d = CHR ''$'' then CHR ''$'' # GetSubstitution matched str position template
         else if d = CHR ''&'' then matched @ GetSubstitution matched str position template
         else if d = CHR 0x60 then
           take position str @ GetSubstitution matched str position template
         else if d = CHR 0x27 then
           drop (position + length matched) str @ GetSubstitution matched str position template
         else c # GetSubstitution matched str position (d # template))
      else c # GetSubstitution matched str position (d # template))"

text \<open>
  \<open>S.replace(searchValue, replaceValue)\<close> with two strings: only the first occurrence
  is replaced, and \<open>S\<close> is returned as it is when there is none.
\<close>

definition replace :: "string \<Rightarrow> string \<Rightarrow> string \<Rightarrow> string" where
  "replace S searchValue replaceValue =
     (case indexOf S searchValue of
        None \<Rightarrow> S
      | Some pos \<Rightarrow>
          take pos S @ GetSubstitution searchValue S pos replaceValue
            @ drop (pos + length searchValue) S)"

lemma indexOf_bound:
  "indexOf S R = Some j \<Longrightarrow> j + length R \<le> length S \<and> take (length R) (drop j S) = R"
proof (induction S arbitrary: j)
  case Nil
  then show ?case by (simp split: if_splits)
next
  case (Cons c S)
  show ?case
  proof (cases "take (length R) (c # S) = R")
    case True
    with Cons.prems have j: "j = 0" by simp
    have "length (take (length R) (c # S)) = length R" using True by simp
    then have "length R \<le> length (c # S)" by simp
    with True j show ?thesis by simp
  next
    case False
    with Cons.prems obtain k where k: "indexOf S R = Some k" "j = Suc k" by auto
    from Cons.IH [OF k(1)] k(2) show ?thesis by simp
  qed
qed

text \<open>
  \<open>S.split(R)\<close> with a string separator and no limit: the empty separator cuts \<open>S\<close> into
  its code units (none for the empty string); otherwise \<open>S\<close> is cut at each occurrence
  of \<open>R\<close>, searched from the end of the previous one.
\<close>

function split :: "'a list \<Rightarrow> 'a list \<Rightarrow> 'a list list" where
  "split S R =
     (if R = [] then map (\<lambda>c. [c]) S
      else (case indexOf S R of
              None \<Rightarrow> [S]
            | Some j \<Rightarrow> take j S # split (drop (j + length R) S) R))"
  by pat_completeness auto
termination
proof (relation "measure (\<lambda>(S, R). length S)")
  show "wf (measure (\<lambda>(S, R). length S))" by simp
next
  fix S R :: "'a list" and j
  assume "R \<noteq> []" and "indexOf S R = Some j"
  then have "j + length R \<le> length S" and "0 < length R"
    using indexOf_bound by fastforce+
  then have "length S - (j + length R) < length S"
    by linarith
  then show "((drop (j + length R) S, R), (S, R)) \<in> measure (\<lambda>(S, R). length S)"
    by simp
qed

declare split.simps [simp del]

text \<open>
  \<open>xs.slice(0, end)\<close>: a negative \<open>end\<close> counts from the end of the array, and both
  bounds are clamped to the array.
\<close>

definition slice0 :: "'a list \<Rightarrow> int \<Rightarrow> 'a list" where
  "slice0 xs end_ix =
     (let len = int (length xs);
          final = (if end_ix < 0 then max (len + end_ix) 0 else min end_ix len)
      in take (nat final) xs)"

text \<open>\<open>xs[i]\<close>: \<open>undefined\<close> (here \<open>None\<close>) outside the array.\<close>

definition index :: "'a list \<Rightarrow> int \<Rightarrow> 'a option" where
  "index xs i = (if 0 \<le> i \<and> i < int (length xs) then Some (xs ! nat i) else None)"

text \<open>
  The white space and line terminators that \<open>trim\<close> strips, among the code units below
  256: tab, line feed, vertical tab, form feed, carriage return, space, no-break space.
\<close>

definition isWhiteSpace :: "char \<Rightarrow> bool" where
  "isWhiteSpace c = (c \<in> set [CHR 0x09, CHR 0x0A, CHR 0x0B, CHR 0x0C, CHR 0x0D, CHR 0x20, CHR 0xA0])"

definition trim :: "string \<Rightarrow> string" where
  "trim S = rev (dropWhile isWhiteSpace (rev (dropWhile isWhiteSpace S)))"

subsection \<open>The data of an analysis\<close>

text \<open>
  The interfaces of the page. An optional or nullable field is an \<open>option\<close>; the band
  score, a JSON number that is only displayed, is a \<open>real\<close>.
\<close>

record Correction =
  original :: string
  replacement :: string
  type :: string
  explanation :: string

datatype Priority = high | medium | low

record PrioritizedSuggestion =
  priority :: Priority
  issue :: string
  suggestion :: string
  example_fix :: "string option"
  apply_to_text :: "string option"
  replacement_text :: "string option"
  category :: string

record VocabularyEnrichment =
  word :: string
  phonetic :: string
  vtype :: string
  definition_text :: string
  example_sentence :: string
  context_in_essay :: string
  target_text :: "string option"
  vreplacement_text :: "string option"

record Tip =
  tip :: string
  example_implementation :: "string option"
  tip_apply_to_text :: "string option"
  tip_replacement_text :: "string option"

record FeedbackDetail =
  summary :: string
  tips :: "Tip list"

datatype Criterion =
  task_achievement | coherence_cohesion | lexical_resource | grammatical_range_accuracy

record FeedbackData =
  band_score :: real
  prioritized_suggestions :: "PrioritizedSuggestion list"
  enrichment :: "VocabularyEnrichment list option"
  feedback :: "Criterion \<Rightarrow> FeedbackDetail"
  corrections :: "Correction list"
  general_comment :: string

subsection \<open>The state of the page\<close>

datatype TaskType = Task1 | Task2

datatype ViewMode = edit | review

text \<open>
  One field per \<open>useState\<close> of \<open>Home\<close> (lines 64 to 79; the tooltip, which no handler below touches,
  apart). \<open>essay\<close> is \<open>None\<close> when the state holds \<open>undefined\<close>, which is what
  \<open>history[i]\<close> gives outside the array.
\<close>

record state =
  essay :: "string option"
  history :: "string list"
  historyIndex :: int
  taskType :: TaskType
  loading :: bool
  result :: "FeedbackData option"
  error :: string
  selectedCriterion :: "Criterion option"
  viewMode :: ViewMode
  lastModifiedText :: "string option"

text \<open>The initial values of the \<open>useState\<close> calls.\<close>

definition initial :: state where
  "initial =
     \<lparr>essay = Some [], history = [], historyIndex = - 1, taskType = Task2, loading = False,
      result = None, error = [], selectedCriterion = None, viewMode = edit,
      lastModifiedText = None\<rparr>"

text \<open>
  The effect that runs once after the first render (lines 83 to 88): it seeds the history with the essay
  when the essay is not empty.
\<close>

definition initHistory :: "state \<Rightarrow> state" where
  "initHistory s =
     (case essay s of
        Some e \<Rightarrow>
          if length (history s) = 0 \<and> e \<noteq> [] then s\<lparr>history := [e], historyIndex := 0\<rparr>
          else s
      | None \<Rightarrow> s)"

definition mounted :: state where
  "mounted = initHistory initial"

datatype jserror = TypeError

subsection \<open>Editing, applying a fix, undo and redo\<close>

text \<open>
  \<open>updateEssay(newEssay, sourceReplacement?)\<close> (lines 105 to 114): the snapshots after the cursor are
  dropped, the new text is appended and the cursor moves to it. The highlight record is
  set only for a non-empty \<open>sourceReplacement\<close>.
\<close>

definition updateEssay :: "string \<Rightarrow> string option \<Rightarrow> state \<Rightarrow> state" where
  "updateEssay newEssay sourceReplacement s =
     (let newHistory = slice0 (history s) (historyIndex s + 1) @ [newEssay];
          s' = s\<lparr>essay := Some newEssay, history := newHistory,
                 historyIndex := int (length newHistory) - 1\<rparr>
      in case sourceReplacement of
           Some r \<Rightarrow> if r \<noteq> [] then s'\<lparr>lastModifiedText := Some r\<rparr> else s'
         | None \<Rightarrow> s')"

text \<open>
  \<open>applyFix(original, replacement, event?)\<close> (lines 116 to 126); \<open>shiftKey\<close> is \<open>event?.shiftKey\<close>.
  Calling \<open>replace\<close> on an essay that is \<open>undefined\<close> throws.
\<close>

definition applyFix :: "string \<Rightarrow> string \<Rightarrow> bool \<Rightarrow> state \<Rightarrow> jserror + state" where
  "applyFix original_text replacement_str shiftKey s =
     (case essay s of
        None \<Rightarrow> Inl TypeError
      | Some e \<Rightarrow>
          let newEssay = replace e original_text replacement_str;
              s1 = (if shiftKey then updateEssay newEssay None s
                    else updateEssay newEssay (Some replacement_str) s);
              s2 = s1\<lparr>viewMode := review\<rparr>
          in Inr (if selectedCriterion s \<noteq> None then s2\<lparr>selectedCriterion := None\<rparr> else s2))"

text \<open>
  \<open>handleUndo\<close> and \<open>handleRedo\<close> (lines 128 to 140) move the cursor by one inside the
  history and make the essay the snapshot there; they set nothing else.
\<close>

definition handleUndo :: "state \<Rightarrow> state" where
  "handleUndo s =
     (if historyIndex s > 0
      then s\<lparr>historyIndex := historyIndex s - 1,
             essay := index (history s) (historyIndex s - 1)\<rparr>
      else s)"

definition handleRedo :: "state \<Rightarrow> state" where
  "handleRedo s =
     (if historyIndex s < int (length (history s)) - 1
      then s\<lparr>historyIndex := historyIndex s + 1,
             essay := index (history s) (historyIndex s + 1)\<rparr>
      else s)"

subsection \<open>Requesting an analysis\<close>

text \<open>
  What the request of \<open>handleAnalyze\<close> can come to: \<open>fetch\<close> rejects (a network
  failure), the response is not \<open>ok\<close>, reading its JSON body rejects, or the body is read.
\<close>

datatype AnalyzeOutcome =
  FetchRejected | ResponseNotOk | JsonRejected | ResponseOk FeedbackData

text \<open>The part of \<open>handleAnalyze\<close> after the \<open>await\<close>: \<open>try\<close>, \<open>catch\<close> and \<open>finally\<close>.\<close>

definition handleAnalyze_settle :: "AnalyzeOutcome \<Rightarrow> state \<Rightarrow> state" where
  "handleAnalyze_settle outcome s =
     (case outcome of
        ResponseOk data \<Rightarrow> s\<lparr>result := Some data, viewMode := review, loading := False\<rparr>
      | _ \<Rightarrow> s\<lparr>error := ''Something went wrong. Please try again.'', loading := False\<rparr>)"

text \<open>
  \<open>handleAnalyze\<close> (lines 159 to 188), the request settled at once. A blank essay is refused before any
  request; otherwise the error is cleared, \<open>loading\<close> is set and the result is set to
  \<open>null\<close> before the request is sent.
\<close>

definition handleAnalyze :: "AnalyzeOutcome \<Rightarrow> state \<Rightarrow> jserror + state" where
  "handleAnalyze outcome s =
     (case essay s of
        None \<Rightarrow> Inl TypeError
      | Some e \<Rightarrow>
          if trim e = [] then Inr (s\<lparr>error := ''Please enter your essay.''\<rparr>)
          else Inr (handleAnalyze_settle outcome (s\<lparr>error := [], loading := True, result := None\<rparr>)))"

text \<open>The outcomes on which \<open>handleAnalyze\<close> reaches its \<open>catch\<close> block.\<close>

fun failed :: "AnalyzeOutcome \<Rightarrow> bool" where
  "failed FetchRejected = True"
| "failed ResponseNotOk = True"
| "failed JsonRejected = True"
| "failed (ResponseOk data) = False"

subsection \<open>Whether a suggestion has been applied\<close>

text \<open>
  \<open>target && !essay.includes(target)\<close>, the \<open>isApplied\<close> of the three suggestion lists
  (lines 466, 534 and 654):
  \<open>null\<close>, \<open>undefined\<close> and the empty string are falsy.
\<close>

definition isApplied :: "string \<Rightarrow> string option \<Rightarrow> bool" where
  "isApplied e target =
     (case target of None \<Rightarrow> False | Some t \<Rightarrow> t \<noteq> [] \<and> \<not> includes_str e t)"

text \<open>
  \<open>target && replacement\<close>: the \<open>canApply\<close> of a vocabulary item (line 535), and the
  condition under which the apply button of a prioritized suggestion (line 491) or of a
  tip (line 669) is rendered.
\<close>

definition canApply :: "string option \<Rightarrow> string option \<Rightarrow> bool" where
  "canApply target replacement_opt =
     ((case target of None \<Rightarrow> False | Some t \<Rightarrow> t \<noteq> [])
      \<and> (case replacement_opt of None \<Rightarrow> False | Some r \<Rightarrow> r \<noteq> []))"

text \<open>
  The apply control is rendered and not \<open>disabled\<close> (lines 494, 547 and 672): a click
  on it calls \<open>applyFix\<close>.
\<close>

definition applyEnabled :: "string \<Rightarrow> string option \<Rightarrow> string option \<Rightarrow> bool" where
  "applyEnabled e target replacement_opt =
     (canApply target replacement_opt \<and> \<not> isApplied e target)"

text \<open>
  A click on an apply control of a suggestion: the button of a prioritized suggestion
  (lines 491 to 494) or of a tip (lines 669 to 672), and the card and the inner label of
  a vocabulary item (lines 538 to 568). The control exists only when target and
  replacement are both truthy, and it is \<open>disabled\<close> (or its handler does nothing) once
  the suggestion counts as applied; otherwise the click calls \<open>applyFix\<close>. The page does
  not render with an essay that is \<open>undefined\<close>.
\<close>

definition clickApply :: "string option \<Rightarrow> string option \<Rightarrow> bool \<Rightarrow> state \<Rightarrow> jserror + state" where
  "clickApply target replacement_opt shiftKey s =
     (case essay s of
        None \<Rightarrow> Inl TypeError
      | Some e \<Rightarrow>
          (case target of
             None \<Rightarrow> Inr s
           | Some t \<Rightarrow>
               (case replacement_opt of
                  None \<Rightarrow> Inr s
                | Some r \<Rightarrow>
                    if applyEnabled e target replacement_opt then applyFix t r shiftKey s
                    else Inr s)))"

subsection \<open>The annotated essay\<close>

text \<open>
  The elements of \<open>annotatedText\<close>: a string, the red span of a correction (with the
  indices of its key and the correction it applies on a click) or the green span of the
  last modified text (with the index of its key).
\<close>

datatype segment =
  Text string
| CorrectionSpan nat nat Correction
| ModifiedSpan nat string

text \<open>The text a segment shows.\<close>

fun segment_text :: "segment \<Rightarrow> string" where
  "segment_text (Text str) = str"
| "segment_text (CorrectionSpan ix i correction) = original correction"
| "segment_text (ModifiedSpan i lmt) = lmt"

text \<open>
  \<open>parts.forEach((part, i) => ...)\<close>: each part is pushed, followed by a span unless it
  is the last part.
\<close>

fun pushParts :: "(nat \<Rightarrow> segment) \<Rightarrow> nat \<Rightarrow> string list \<Rightarrow> segment list" where
  "pushParts mkSpan i [] = []"
| "pushParts mkSpan i [part] = [Text part]"
| "pushParts mkSpan i (part # next_part # parts) =
     Text part # mkSpan i # pushParts mkSpan (Suc i) (next_part # parts)"

definition highlightCorrection :: "nat \<Rightarrow> Correction \<Rightarrow> segment \<Rightarrow> segment list" where
  "highlightCorrection ix correction seg =
     (case seg of
        Text str \<Rightarrow>
          (let parts = split str (original correction)
           in if length parts > 1 then pushParts (\<lambda>i. CorrectionSpan ix i correction) 0 parts
              else [seg])
      | _ \<Rightarrow> [seg])"

text \<open>\<open>result.corrections.forEach((correction, index) => ...)\<close>, from \<open>index = ix\<close> on.\<close>

fun correctionsPass :: "nat \<Rightarrow> Correction list \<Rightarrow> segment list \<Rightarrow> segment list" where
  "correctionsPass ix [] annotatedText = annotatedText"
| "correctionsPass ix (correction # cs) annotatedText =
     correctionsPass (Suc ix) cs (concat (map (highlightCorrection ix correction) annotatedText))"

definition highlightModified :: "string \<Rightarrow> segment \<Rightarrow> segment list" where
  "highlightModified lmt seg =
     (case seg of
        Text str \<Rightarrow>
          if includes_str str lmt then pushParts (\<lambda>i. ModifiedSpan i lmt) 0 (split str lmt)
          else [seg]
      | _ \<Rightarrow> [seg])"

text \<open>
  \<open>renderAnnotatedEssay\<close> (lines 195 to 273): the segments React renders. Without a result the essay is
  returned as it is. An essay that is \<open>undefined\<close> renders nothing.
\<close>

definition renderAnnotatedEssay :: "state \<Rightarrow> segment list" where
  "renderAnnotatedEssay s =
     (case essay s of
        None \<Rightarrow> []
      | Some e \<Rightarrow>
          (case result s of
             None \<Rightarrow> [Text e]
           | Some r \<Rightarrow>
               (let annotatedText = correctionsPass 0 (corrections r) [Text e]
                in case lastModifiedText s of
                     None \<Rightarrow> annotatedText
                   | Some lmt \<Rightarrow>
                       if lmt \<noteq> [] then concat (map (highlightModified lmt) annotatedText)
                       else annotatedText)))"

text \<open>
  A click on a segment of the annotated essay, which is shown in review mode only
  (line 403). Only the span of a correction has an \<open>onClick\<close> (line 226), and only a
  segment that \<open>renderAnnotatedEssay\<close> produced can be clicked.
\<close>

definition clickSegment :: "segment \<Rightarrow> bool \<Rightarrow> state \<Rightarrow> jserror + state" where
  "clickSegment seg shiftKey s =
     (if viewMode s = review \<and> seg \<in> set (renderAnnotatedEssay s) then
        (case seg of
           CorrectionSpan ix i correction \<Rightarrow>
             applyFix (original correction) (replacement correction) shiftKey s
         | _ \<Rightarrow> Inr s)
      else Inr s)"

text \<open>Every segment shows a piece of text that occurs in \<open>e\<close>.\<close>

definition segmentsWithin :: "string \<Rightarrow> segment list \<Rightarrow> bool" where
  "segmentsWithin e segs = list_all (\<lambda>seg. includes_str e (segment_text seg)) segs"

subsection \<open>Sequences of edits\<close>

text \<open>
  The calls that change the history: \<open>setText\<close> is \<open>updateEssay\<close> (with the span to
  highlight, if any), undo is \<open>handleUndo\<close> and redo is \<open>handleRedo\<close>. \<open>run\<close> makes
  the calls of a list in order.
\<close>

datatype operation = SetText string "string option" | Undo | Redo

fun step :: "operation \<Rightarrow> state \<Rightarrow> state" where
  "step (SetText newText changedSpan) s = updateEssay newText changedSpan s"
| "step Undo s = handleUndo s"
| "step Redo s = handleRedo s"

fun run :: "operation list \<Rightarrow> state \<Rightarrow> state" where
  "run [] s = s"
| "run (opn # ops) s = run ops (step opn s)"

fun isSetText :: "operation \<Rightarrow> bool" where
  "isSetText (SetText newText changedSpan) = True"
| "isSetText Undo = False"
| "isSetText Redo = False"

text \<open>The texts that the \<open>setText\<close> calls of a sequence write, in order.\<close>

fun writtenTexts :: "operation list \<Rightarrow> string list" where
  "writtenTexts [] = []"
| "writtenTexts (SetText newText changedSpan # ops) = newText # writtenTexts ops"
| "writtenTexts (Undo # ops) = writtenTexts ops"
| "writtenTexts (Redo # ops) = writtenTexts ops"

text \<open>The cursor is an index of the history, and the essay is the snapshot there.\<close>

definition consistent :: "state \<Rightarrow> bool" where
  "consistent s =
     (0 \<le> historyIndex s \<and> historyIndex s < int (length (history s))
      \<and> essay s = Some (history s ! nat (historyIndex s)))"

subsection \<open>Example data\<close>

definition exampleFeedback :: FeedbackData where
  "exampleFeedback =
     \<lparr>band_score = 6.5, prioritized_suggestions = [], enrichment = None,
      feedback = (\<lambda>criterion. \<lparr>summary = [], tips = []\<rparr>),
      corrections =
        [\<lparr>original = ''has'', replacement = ''have'', type = ''grammar'',
          explanation = ''Subject-verb agreement''\<rparr>],
      general_comment = []\<rparr>"

text \<open>A suggestion, a vocabulary item and a tip whose target is the empty string.\<close>

definition exampleSuggestion :: PrioritizedSuggestion where
  "exampleSuggestion =
     \<lparr>priority = high, issue = ''Weak thesis'', suggestion = ''State your position'',
      example_fix = None, apply_to_text = Some [], replacement_text = Some ''I firmly believe'',
      category = ''Task Achievement''\<rparr>"

definition exampleVocabulary :: VocabularyEnrichment where
  "exampleVocabulary =
     \<lparr>word = ''detrimental'', phonetic = [], vtype = ''adjective'',
      definition_text = ''causing harm'', example_sentence = [], context_in_essay = [],
      target_text = Some [], vreplacement_text = Some ''detrimental''\<rparr>"

definition exampleTip :: Tip where
  "exampleTip =
     \<lparr>tip = ''Use linking words'', example_implementation = None,
      tip_apply_to_text = Some [], tip_replacement_text = Some ''Moreover''\<rparr>"

section \<open>The annotated essay is a partition of the essay\<close>

lemma split_nonempty: "R \<noteq> [] \<Longrightarrow> split S R \<noteq> []"
  by (subst split.simps) (simp split: option.split)

lemma indexOf_decompose:
  assumes "indexOf S R = Some j"
  shows "take j S @ R @ drop (j + length R) S = S"
proof -
  from indexOf_bound [OF assms] have R: "take (length R) (drop j S) = R" by simp
  have "drop j S = take (length R) (drop j S) @ drop (length R) (drop j S)"
    by (simp only: append_take_drop_id)
  with R have "drop j S = R @ drop (length R) (drop j S)"
    by simp
  then have "drop j S = R @ drop (j + length R) S"
    by (simp only: drop_drop add.commute)
  then have "take j S @ R @ drop (j + length R) S = take j S @ drop j S"
    by simp
  then show ?thesis by simp
qed

lemma pushParts_units:
  assumes "\<And>k. segment_text (mkSpan k) = []"
  shows "concat (map segment_text (pushParts mkSpan i (map (\<lambda>c. [c]) S))) = S"
proof (induction S arbitrary: i)
  case Nil
  show ?case by simp
next
  case (Cons c S)
  show ?case
  proof (cases S)
    case Nil
    then show ?thesis by simp
  next
    case (Cons d S')
    with Cons.IH [of "Suc i"] assms show ?thesis by simp
  qed
qed

lemma pushParts_split:
  "(\<And>k. segment_text (mkSpan k) = R) \<Longrightarrow>
     concat (map segment_text (pushParts mkSpan i (split S R))) = S"
proof (induction S R arbitrary: i rule: split.induct)
  case (1 S R)
  note spans = "1.prems"
  show ?case
  proof (cases "R = []")
    case True
    then have sp: "split S R = map (\<lambda>c. [c]) S" by (subst split.simps) simp
    from True spans have "\<And>k. segment_text (mkSpan k) = []" by simp
    from pushParts_units [OF this] sp show ?thesis by simp
  next
    case False
    show ?thesis
    proof (cases "indexOf S R")
      case None
      with False have "split S R = [S]" by (subst split.simps) simp
      then show ?thesis by simp
    next
      case (Some j)
      let ?rest = "split (drop (j + length R) S) R"
      from False Some have sp: "split S R = take j S # ?rest"
        by (subst split.simps) simp
      from split_nonempty [OF False] obtain q qs where rest: "?rest = q # qs"
        by (cases ?rest) auto
      have "concat (map segment_text (pushParts mkSpan (Suc i) ?rest)) = drop (j + length R) S"
        using "1.IH" [OF False Some spans] .
      with sp rest spans have
        "concat (map segment_text (pushParts mkSpan i (split S R))) =
           take j S @ R @ drop (j + length R) S"
        by simp
      with indexOf_decompose [OF Some] show ?thesis by simp
    qed
  qed
qed

lemma highlightCorrection_text:
  "concat (map segment_text (highlightCorrection ix correction seg)) = segment_text seg"
proof (cases seg)
  case (Text str)
  have "concat (map segment_text
          (pushParts (\<lambda>i. CorrectionSpan ix i correction) 0 (split str (original correction)))) = str"
    by (rule pushParts_split) simp
  with Text show ?thesis by (simp add: highlightCorrection_def Let_def)
qed (simp_all add: highlightCorrection_def)

lemma highlightModified_text:
  "concat (map segment_text (highlightModified lmt seg)) = segment_text seg"
proof (cases seg)
  case (Text str)
  have "concat (map segment_text (pushParts (\<lambda>i. ModifiedSpan i lmt) 0 (split str lmt))) = str"
    by (rule pushParts_split) simp
  with Text show ?thesis by (simp add: highlightModified_def)
qed (simp_all add: highlightModified_def)

lemma concat_map_text:
  assumes "\<And>seg. concat (map segment_text (f seg)) = segment_text seg"
  shows "concat (map segment_text (concat (map f segs))) = concat (map segment_text segs)"
  by (induction segs) (simp_all add: assms)

lemma correctionsPass_text:
  "concat (map segment_text (correctionsPass ix cs segs)) = concat (map segment_text segs)"
proof (induction cs arbitrary: ix segs)
  case Nil
  show ?case by simp
next
  case (Cons c cs)
  have "concat (map segment_text (concat (map (highlightCorrection ix c) segs)))
          = concat (map segment_text segs)"
    by (rule concat_map_text) (rule highlightCorrection_text)
  with Cons.IH show ?case by simp
qed

text \<open>
  Claim C3. For every essay text, every list of corrections of the installed result and
  every last modified text (set or not), the texts of the segments that
  \<open>renderAnnotatedEssay\<close> produces (plain strings, correction spans and modified
  spans), concatenated in order, are exactly the essay text.
\<close>

theorem renderAnnotatedEssay_partition:
  assumes "essay s = Some e"
  shows "concat (map segment_text (renderAnnotatedEssay s)) = e"
proof (cases "result s")
  case None
  with assms show ?thesis by (simp add: renderAnnotatedEssay_def)
next
  case (Some r)
  let ?annotated = "correctionsPass 0 (corrections r) [Text e]"
  have first: "concat (map segment_text ?annotated) = e"
    by (simp add: correctionsPass_text)
  have second: "concat (map segment_text (concat (map (highlightModified lmt) ?annotated))) = e" for lmt
    using concat_map_text [of "highlightModified lmt" ?annotated] first
    by (simp add: highlightModified_text)
  from assms Some first second show ?thesis
    by (simp add: renderAnnotatedEssay_def Let_def split: option.split)
qed

theorem renderAnnotatedEssay_partition_witness:
  "map segment_text
     (renderAnnotatedEssay
        (initial\<lparr>essay := Some ''I has a dog'', result := Some exampleFeedback,
                 lastModifiedText := Some ''dog''\<rparr>))
     = [''I '', ''has'', '' a '', ''dog'', '''']
   \<and> concat (map segment_text
        (renderAnnotatedEssay
           (initial\<lparr>essay := Some ''I has a dog'', result := Some exampleFeedback,
                    lastModifiedText := Some ''dog''\<rparr>)))
     = ''I has a dog''"
proof -
  let ?s = "initial\<lparr>essay := Some ''I has a dog'', result := Some exampleFeedback,
                    lastModifiedText := Some ''dog''\<rparr>"
  have e: "essay ?s = Some ''I has a dog''" by simp
  have "map segment_text (renderAnnotatedEssay ?s) = [''I '', ''has'', '' a '', ''dog'', '''']"
    by (simp add: renderAnnotatedEssay_def exampleFeedback_def highlightCorrection_def
        highlightModified_def includes_str_def split.simps Let_def)
  with renderAnnotatedEssay_partition [OF e] show ?thesis by simp
qed

section \<open>Occurrences and replacement\<close>

text \<open>\<open>includes_str\<close> holds exactly for the substrings.\<close>

lemma indexOf_occurrence: "indexOf (pre @ R @ post) R \<noteq> None"
proof (induction pre)
  case Nil
  show ?case
  proof (cases "R @ post")
    case Nil
    then show ?thesis by simp
  next
    case (Cons c S)
    have "take (length R) (R @ post) = R" by simp
    with Cons have "take (length R) (c # S) = R" by simp
    then have "indexOf (c # S) R = Some 0" by simp
    with Cons show ?thesis by simp
  qed
next
  case (Cons a pre)
  then show ?case by auto
qed

lemma includes_str_iff: "includes_str S R \<longleftrightarrow> (\<exists>pre post. S = pre @ R @ post)"
proof
  assume "includes_str S R"
  then obtain j where "indexOf S R = Some j" by (auto simp: includes_str_def)
  from indexOf_decompose [OF this] show "\<exists>pre post. S = pre @ R @ post" by metis
next
  assume "\<exists>pre post. S = pre @ R @ post"
  then obtain pre post where "S = pre @ R @ post" by blast
  with indexOf_occurrence [of pre R post] show "includes_str S R"
    by (simp add: includes_str_def)
qed

lemma indexOf_least:
  "indexOf S R = Some j \<Longrightarrow> i < j \<Longrightarrow> take (length R) (drop i S) \<noteq> R"
proof (induction S arbitrary: i j)
  case Nil
  then show ?case by (simp split: if_splits)
next
  case (Cons c S)
  from Cons.prems have ne: "take (length R) (c # S) \<noteq> R"
    by (auto split: if_splits)
  with Cons.prems obtain k where k: "indexOf S R = Some k" "j = Suc k" by auto
  show ?case
  proof (cases i)
    case 0
    with ne show ?thesis by simp
  next
    case (Suc i')
    with Cons.prems k have "i' < k" by simp
    from Cons.IH [OF k(1) this] Suc show ?thesis by simp
  qed
qed

lemma GetSubstitution_literal:
  "CHR ''$'' \<notin> set template \<Longrightarrow> GetSubstitution matched str position template = template"
  by (induction matched str position template rule: GetSubstitution.induct) auto

lemma replace_absent: "\<not> includes_str S R \<Longrightarrow> replace S R r = S"
  by (simp add: includes_str_def replace_def)

lemma replace_first_occurrence:
  "indexOf S R = Some j \<Longrightarrow> CHR ''$'' \<notin> set r \<Longrightarrow>
     replace S R r = take j S @ r @ drop (j + length R) S"
  by (simp add: replace_def GetSubstitution_literal)

section \<open>The spans of the annotated essay occur in the essay\<close>

lemma includes_str_refl: "includes_str S S"
  using includes_str_iff [of S S] by (metis append_Nil append_Nil2)

lemma includes_str_empty: "includes_str S []"
  by (cases S) (simp_all add: includes_str_def)

lemma includes_str_trans:
  assumes "includes_str S T" and "includes_str T R"
  shows "includes_str S R"
proof -
  from assms(1) obtain p q where S: "S = p @ T @ q" by (auto simp: includes_str_iff)
  from assms(2) obtain p' q' where T: "T = p' @ R @ q'" by (auto simp: includes_str_iff)
  from S T have "S = (p @ p') @ R @ (q' @ q)" by simp
  then show ?thesis unfolding includes_str_iff by blast
qed

lemma includes_str_take: "includes_str S (take j S)"
proof -
  have "S = [] @ take j S @ drop j S" by simp
  then show ?thesis unfolding includes_str_iff by blast
qed

lemma includes_str_drop: "includes_str S (drop j S)"
proof -
  have "S = take j S @ drop j S @ []" by simp
  then show ?thesis unfolding includes_str_iff by blast
qed

lemma includes_str_unit: "c \<in> set S \<Longrightarrow> includes_str S [c]"
proof -
  assume "c \<in> set S"
  then obtain p q where "S = p @ c # q" by (auto simp: in_set_conv_decomp)
  then have "S = p @ [c] @ q" by simp
  then show ?thesis unfolding includes_str_iff by blast
qed

lemma split_parts_included: "part \<in> set (split S R) \<Longrightarrow> includes_str S part"
proof (induction S R rule: split.induct)
  case (1 S R)
  show ?case
  proof (cases "R = []")
    case True
    then have "split S R = map (\<lambda>c. [c]) S" by (subst split.simps) simp
    with "1.prems" obtain c where "c \<in> set S" "part = [c]" by auto
    then show ?thesis by (simp add: includes_str_unit)
  next
    case False
    show ?thesis
    proof (cases "indexOf S R")
      case None
      with False have "split S R = [S]" by (subst split.simps) simp
      with "1.prems" show ?thesis by (simp add: includes_str_refl)
    next
      case (Some j)
      from False Some have "split S R = take j S # split (drop (j + length R) S) R"
        by (subst split.simps) simp
      with "1.prems" consider "part = take j S" | "part \<in> set (split (drop (j + length R) S) R)"
        by auto
      then show ?thesis
      proof cases
        case 1
        then show ?thesis by (simp add: includes_str_take)
      next
        case 2
        from "1.IH" [OF False Some 2] have "includes_str (drop (j + length R) S) part" .
        with includes_str_drop [of S "j + length R"] show ?thesis
          by (rule includes_str_trans)
      qed
    qed
  qed
qed

lemma split_several: "1 < length (split S R) \<Longrightarrow> includes_str S R"
proof (cases "R = []")
  case True
  then show ?thesis by (simp add: includes_str_empty)
next
  case False
  assume len: "1 < length (split S R)"
  show ?thesis
  proof (cases "indexOf S R")
    case None
    with False have "split S R = [S]" by (subst split.simps) simp
    with len show ?thesis by simp
  next
    case (Some j)
    then show ?thesis by (simp add: includes_str_def)
  qed
qed

lemma pushParts_members:
  "seg \<in> set (pushParts mkSpan i parts) \<Longrightarrow>
     (\<exists>part. part \<in> set parts \<and> seg = Text part) \<or> (\<exists>k. seg = mkSpan k)"
  by (induction mkSpan i parts rule: pushParts.induct) auto

lemma segmentsWithin_iff: "segmentsWithin e segs \<longleftrightarrow> (\<forall>seg \<in> set segs. includes_str e (segment_text seg))"
  by (simp add: segmentsWithin_def list_all_iff)

lemma highlightCorrection_within:
  assumes "includes_str e (segment_text seg)"
  shows "segmentsWithin e (highlightCorrection ix correction seg)"
proof (cases seg)
  case (Text str)
  show ?thesis
  proof (cases "1 < length (split str (original correction))")
    case True
    have "includes_str e (segment_text sg)"
      if "sg \<in> set (pushParts (\<lambda>i. CorrectionSpan ix i correction) 0 (split str (original correction)))"
      for sg
    proof -
      from pushParts_members [OF that] consider
        part where "part \<in> set (split str (original correction))" "sg = Text part"
        | k where "sg = CorrectionSpan ix k correction" by blast
      then show ?thesis
      proof cases
        case 1
        from split_parts_included [OF 1(1)] have "includes_str str part" .
        with assms Text 1(2) show ?thesis by (auto intro: includes_str_trans)
      next
        case 2
        from split_several [OF True] have "includes_str str (original correction)" .
        with assms Text 2 show ?thesis by (auto intro: includes_str_trans)
      qed
    qed
    with True Text show ?thesis by (simp add: segmentsWithin_iff highlightCorrection_def Let_def)
  next
    case False
    with assms Text show ?thesis by (simp add: segmentsWithin_iff highlightCorrection_def Let_def)
  qed
qed (use assms in \<open>simp_all add: segmentsWithin_iff highlightCorrection_def\<close>)

lemma highlightModified_within:
  assumes "includes_str e (segment_text seg)"
  shows "segmentsWithin e (highlightModified lmt seg)"
proof (cases seg)
  case (Text str)
  show ?thesis
  proof (cases "includes_str str lmt")
    case True
    have "includes_str e (segment_text sg)"
      if "sg \<in> set (pushParts (\<lambda>i. ModifiedSpan i lmt) 0 (split str lmt))" for sg
    proof -
      from pushParts_members [OF that] consider
        part where "part \<in> set (split str lmt)" "sg = Text part"
        | k where "sg = ModifiedSpan k lmt" by blast
      then show ?thesis
      proof cases
        case 1
        from split_parts_included [OF 1(1)] have "includes_str str part" .
        with assms Text 1(2) show ?thesis by (auto intro: includes_str_trans)
      next
        case 2
        with assms Text True show ?thesis by (auto intro: includes_str_trans)
      qed
    qed
    with True Text show ?thesis by (simp add: segmentsWithin_iff highlightModified_def)
  next
    case False
    with assms Text show ?thesis by (simp add: segmentsWithin_iff highlightModified_def)
  qed
qed (use assms in \<open>simp_all add: segmentsWithin_iff highlightModified_def\<close>)

lemma segmentsWithin_concat_map:
  assumes "\<And>seg. includes_str e (segment_text seg) \<Longrightarrow> segmentsWithin e (f seg)"
    and "segmentsWithin e segs"
  shows "segmentsWithin e (concat (map f segs))"
  using assms by (auto simp: segmentsWithin_iff)

lemma correctionsPass_within:
  "segmentsWithin e segs \<Longrightarrow> segmentsWithin e (correctionsPass ix cs segs)"
proof (induction cs arbitrary: ix segs)
  case Nil
  then show ?case by simp
next
  case (Cons c cs)
  have "segmentsWithin e (concat (map (highlightCorrection ix c) segs))"
    by (rule segmentsWithin_concat_map) (rule highlightCorrection_within, assumption, rule Cons.prems)
  from Cons.IH [OF this] show ?case by simp
qed

lemma renderAnnotatedEssay_within:
  assumes "essay s = Some e"
  shows "segmentsWithin e (renderAnnotatedEssay s)"
proof (cases "result s")
  case None
  with assms show ?thesis
    by (simp add: renderAnnotatedEssay_def segmentsWithin_iff includes_str_refl)
next
  case (Some r)
  let ?annotated = "correctionsPass 0 (corrections r) [Text e]"
  have "segmentsWithin e [Text e]" by (simp add: segmentsWithin_iff includes_str_refl)
  then have first: "segmentsWithin e ?annotated" by (rule correctionsPass_within)
  have second: "segmentsWithin e (concat (map (highlightModified lmt) ?annotated))" for lmt
    by (rule segmentsWithin_concat_map) (rule highlightModified_within, assumption, rule first)
  from assms Some first second show ?thesis
    by (simp add: renderAnnotatedEssay_def Let_def split: option.split)
qed

lemma span_target_occurs:
  assumes "essay s = Some e" and "CorrectionSpan ix i correction \<in> set (renderAnnotatedEssay s)"
  shows "includes_str e (original correction)"
  using renderAnnotatedEssay_within [OF assms(1)] assms(2) by (force simp: segmentsWithin_iff)

section \<open>Applying a fix\<close>

lemma mounted_fields:
  "essay mounted = Some []" "history mounted = []" "historyIndex mounted = - 1"
  "lastModifiedText mounted = None" "result mounted = None"
  by (simp_all add: mounted_def initHistory_def initial_def)

lemma slice0_take:
  "- 1 \<le> k \<Longrightarrow> slice0 xs (k + 1) = take (nat (k + 1)) xs"
  by (simp add: slice0_def Let_def min_def)

lemma updateEssay_essay: "essay (updateEssay x cs s) = Some x"
  by (simp add: updateEssay_def Let_def split: option.split)

lemma updateEssay_history:
  "history (updateEssay x cs s) = slice0 (history s) (historyIndex s + 1) @ [x]"
  by (simp add: updateEssay_def Let_def split: option.split)

lemma updateEssay_historyIndex:
  "historyIndex (updateEssay x cs s) = int (length (history (updateEssay x cs s))) - 1"
  by (simp add: updateEssay_def Let_def split: option.split)

lemma applyFix_Inr:
  "essay s = Some e \<Longrightarrow>
     \<exists>s'. applyFix t r k s = Inr s'
        \<and> essay s' = Some (replace e t r)
        \<and> history s' = slice0 (history s) (historyIndex s + 1) @ [replace e t r]
        \<and> historyIndex s' = int (length (history s')) - 1"
  by (simp add: applyFix_def Let_def updateEssay_essay updateEssay_history updateEssay_historyIndex)

lemma clickApply_disabled:
  "essay s = Some e \<Longrightarrow> \<not> applyEnabled e target replacement_opt \<Longrightarrow>
     clickApply target replacement_opt shiftKey s = Inr s"
  by (auto simp: clickApply_def split: option.split)

lemma clickApply_enabled:
  "essay s = Some e \<Longrightarrow> applyEnabled e (Some t) (Some r) \<Longrightarrow>
     clickApply (Some t) (Some r) shiftKey s = applyFix t r shiftKey s"
  by (simp add: clickApply_def)

text \<open>
  Claim C1. When the target is not a substring of the essay, applying it is a no-op
  that raises no error: the apply control of a suggestion with this target (whatever its
  replacement) is absent or disabled, no span of a correction with this target is in the
  annotated essay, and so a click leaves the whole state (essay text, history, cursor
  and all the rest) as it is. \<open>applyFix\<close> itself has no such check; each of its callers
  has.
\<close>

theorem apply_absent_target_noop:
  assumes "essay s = Some e" and "\<not> includes_str e target"
  shows "clickApply (Some target) replacement_opt shiftKey s = Inr s
    \<and> clickSegment
        (CorrectionSpan ix i
           \<lparr>original = target, replacement = r, type = kind, explanation = why\<rparr>)
        shiftKey s = Inr s"
proof -
  have "\<not> applyEnabled e (Some target) replacement_opt"
  proof (cases "target = []")
    case True
    then show ?thesis by (simp add: applyEnabled_def canApply_def)
  next
    case False
    with assms(2) show ?thesis by (simp add: applyEnabled_def isApplied_def)
  qed
  with assms(1) have button: "clickApply (Some target) replacement_opt shiftKey s = Inr s"
    by (rule clickApply_disabled)
  let ?c = "\<lparr>original = target, replacement = r, type = kind, explanation = why\<rparr>"
  have "CorrectionSpan ix i ?c \<notin> set (renderAnnotatedEssay s)"
  proof
    assume "CorrectionSpan ix i ?c \<in> set (renderAnnotatedEssay s)"
    from span_target_occurs [OF assms(1) this] assms(2) show False by simp
  qed
  then have "clickSegment (CorrectionSpan ix i ?c) shiftKey s = Inr s"
    by (simp add: clickSegment_def)
  with button show ?thesis by simp
qed

theorem apply_absent_target_noop_witness:
  "essay (projr (handleAnalyze (ResponseOk exampleFeedback)
        (updateEssay ''I have a dog'' None mounted))) = Some ''I have a dog''
   \<and> \<not> includes_str ''I have a dog'' ''has''
   \<and> history (projr (handleAnalyze (ResponseOk exampleFeedback)
        (updateEssay ''I have a dog'' None mounted))) = [''I have a dog'']
   \<and> clickApply (Some ''has'') (Some ''have'') False
        (projr (handleAnalyze (ResponseOk exampleFeedback)
           (updateEssay ''I have a dog'' None mounted)))
       = Inr (projr (handleAnalyze (ResponseOk exampleFeedback)
           (updateEssay ''I have a dog'' None mounted)))
   \<and> clickSegment
        (CorrectionSpan 0 0
           \<lparr>original = ''has'', replacement = ''have'', type = ''grammar'',
            explanation = ''Subject-verb agreement''\<rparr>)
        False
        (projr (handleAnalyze (ResponseOk exampleFeedback)
           (updateEssay ''I have a dog'' None mounted)))
       = Inr (projr (handleAnalyze (ResponseOk exampleFeedback)
           (updateEssay ''I have a dog'' None mounted)))"
proof -
  let ?s = "projr (handleAnalyze (ResponseOk exampleFeedback)
              (updateEssay ''I have a dog'' None mounted))"
  have t: "trim ''I have a dog'' \<noteq> []" by (simp add: trim_def isWhiteSpace_def)
  have e0: "essay (updateEssay ''I have a dog'' None mounted) = Some ''I have a dog''"
    by (simp add: updateEssay_essay)
  have h0: "history (updateEssay ''I have a dog'' None mounted) = [''I have a dog'']"
    by (simp add: updateEssay_history mounted_fields slice0_def)
  from t e0 h0 have e: "essay ?s = Some ''I have a dog''"
    and h: "history ?s = [''I have a dog'']"
    by (simp_all add: handleAnalyze_def handleAnalyze_settle_def)
  have n: "\<not> includes_str ''I have a dog'' ''has''" by (simp add: includes_str_def)
  from apply_absent_target_noop [OF e n, of "Some ''have''" False 0 0 "''have''" "''grammar''"
      "''Subject-verb agreement''"] e n h
  show ?thesis by simp
qed

text \<open>
  For a replacement without a dollar sign, \<open>applyFix\<close> puts the replacement in the place
  of the first occurrence of the target (at \<open>j\<close>, with no occurrence before it) and keeps
  the text on both sides.
\<close>

lemma applyFix_first_occurrence:
  assumes "essay s = Some e" and "indexOf e target = Some j" and "CHR ''$'' \<notin> set r"
  shows "\<exists>s'. applyFix target r shiftKey s = Inr s'
           \<and> essay s' = Some (take j e @ r @ drop (j + length target) e)
           \<and> take (length target) (drop j e) = target
           \<and> (\<forall>i<j. take (length target) (drop i e) \<noteq> target)"
proof -
  from applyFix_Inr [OF assms(1), of target r shiftKey] obtain s' where
    s': "applyFix target r shiftKey s = Inr s'" "essay s' = Some (replace e target r)"
    by blast
  from assms(2,3) have "replace e target r = take j e @ r @ drop (j + length target) e"
    by (rule replace_first_occurrence)
  with s' indexOf_bound [OF assms(2)] indexOf_least [OF assms(2)] show ?thesis
    by simp
qed

text \<open>
  Claim C4 at two inputs. With the essay \<open>bad bad\<close> and the target \<open>bad\<close>, the
  replacement \<open>[$&]\<close> is not inserted as it is written: \<open>replace\<close> reads \<open>$&\<close> as the
  matched text, and the essay becomes \<open>[bad] bad\<close>. The replacement \<open>good\<close>, which has
  no dollar sign, gives \<open>good bad\<close>.
\<close>

theorem applyFix_dollar_pattern:
  "includes_str ''bad bad'' ''bad''
   \<and> essay (projr (applyFix ''bad'' ''[$&]'' False (updateEssay ''bad bad'' None mounted)))
       = Some ''[bad] bad''
   \<and> essay (projr (applyFix ''bad'' ''good'' False (updateEssay ''bad bad'' None mounted)))
       = Some ''good bad''"
  by (simp add: includes_str_def applyFix_def updateEssay_def replace_def Let_def)

text \<open>
  A condition on the inputs under which the target is gone after the replacement: one
  of its characters occurs neither in the replacement nor in the rest of the essay.
\<close>

lemma target_gone:
  assumes "c \<in> set target" and "c \<notin> set pre" and "c \<notin> set r" and "c \<notin> set post"
  shows "\<not> includes_str (pre @ r @ post) target"
proof
  assume "includes_str (pre @ r @ post) target"
  then obtain p q where "pre @ r @ post = p @ target @ q" by (auto simp: includes_str_iff)
  then have "set (pre @ r @ post) = set (p @ target @ q)" by simp
  with assms(1) have "c \<in> set (pre @ r @ post)" by simp
  with assms(2-4) show False by simp
qed

text \<open>
  The essay \<open>bad bad\<close> with the suggestion \<open>bad\<close> \<open>\<rightarrow>\<close> \<open>good\<close>: after the first click
  the essay is \<open>good bad\<close>, the suggestion is not reported applied and its control is
  still enabled; the second click changes the essay again, to \<open>good good\<close>.
\<close>

theorem apply_twice_counterexample:
  "canApply (Some ''bad'') (Some ''good'')
   \<and> essay (projr (clickApply (Some ''bad'') (Some ''good'') False
        (updateEssay ''bad bad'' None mounted))) = Some ''good bad''
   \<and> \<not> isApplied ''good bad'' (Some ''bad'')
   \<and> essay (projr (clickApply (Some ''bad'') (Some ''good'') False
        (projr (clickApply (Some ''bad'') (Some ''good'') False
           (updateEssay ''bad bad'' None mounted))))) = Some ''good good''"
  by (simp add: clickApply_def applyEnabled_def canApply_def isApplied_def includes_str_def
      applyFix_def updateEssay_def replace_def Let_def)

text \<open>
  Claim C5, as the code has it. Take an actionable suggestion (target and replacement
  both non-empty, the replacement without a dollar sign) whose target occurs in the
  essay, first at position \<open>j\<close>, and does not occur in the text that has the replacement
  in the place of that first occurrence. The first click on its apply control makes the
  essay exactly that text, which differs from the essay before; the suggestion is then
  reported applied, and a second click changes nothing and raises no error.
\<close>

theorem apply_twice:
  assumes "essay s = Some e" and "canApply (Some target) (Some r)"
    and "indexOf e target = Some j" and "CHR ''$'' \<notin> set r"
    and "\<not> includes_str (take j e @ r @ drop (j + length target) e) target"
  shows "\<exists>s1. clickApply (Some target) (Some r) shiftKey s = Inr s1
           \<and> essay s1 = Some (take j e @ r @ drop (j + length target) e)
           \<and> essay s1 \<noteq> essay s
           \<and> isApplied (take j e @ r @ drop (j + length target) e) (Some target)
           \<and> clickApply (Some target) (Some r) shiftKey' s1 = Inr s1"
proof -
  let ?e1 = "take j e @ r @ drop (j + length target) e"
  from assms(2) have ne: "target \<noteq> []" by (simp add: canApply_def)
  from assms(3) have occ: "includes_str e target" by (simp add: includes_str_def)
  with assms(2) have "applyEnabled e (Some target) (Some r)"
    by (simp add: applyEnabled_def isApplied_def)
  with assms(1) have first: "clickApply (Some target) (Some r) shiftKey s = applyFix target r shiftKey s"
    by (rule clickApply_enabled)
  from applyFix_Inr [OF assms(1), of target r shiftKey] obtain s1 where
    s1: "applyFix target r shiftKey s = Inr s1" "essay s1 = Some (replace e target r)"
    by blast
  from assms(3,4) have "replace e target r = ?e1" by (rule replace_first_occurrence)
  with s1 have e1: "essay s1 = Some ?e1" by simp
  from occ assms(5) have "?e1 \<noteq> e" by auto
  with e1 assms(1) have changed: "essay s1 \<noteq> essay s" by simp
  from ne assms(5) have resolved: "isApplied ?e1 (Some target)" by (simp add: isApplied_def)
  then have "\<not> applyEnabled ?e1 (Some target) (Some r)" by (simp add: applyEnabled_def)
  with e1 have "clickApply (Some target) (Some r) shiftKey' s1 = Inr s1"
    by (rule clickApply_disabled)
  with first s1 e1 changed resolved show ?thesis by simp
qed

theorem apply_twice_witness:
  "essay (updateEssay ''I has a dog'' None mounted) = Some ''I has a dog''
   \<and> canApply (Some ''has'') (Some ''have'')
   \<and> indexOf ''I has a dog'' ''has'' = Some 2
   \<and> CHR ''$'' \<notin> set ''have''
   \<and> \<not> includes_str ''I have a dog'' ''has''
   \<and> (\<exists>s1. clickApply (Some ''has'') (Some ''have'') False
               (updateEssay ''I has a dog'' None mounted) = Inr s1
          \<and> essay s1 = Some ''I have a dog''
          \<and> essay s1 \<noteq> essay (updateEssay ''I has a dog'' None mounted)
          \<and> isApplied ''I have a dog'' (Some ''has'')
          \<and> clickApply (Some ''has'') (Some ''have'') False s1 = Inr s1)"
proof -
  let ?s = "updateEssay ''I has a dog'' None mounted"
  have e: "essay ?s = Some ''I has a dog''" by (simp add: updateEssay_essay)
  have c: "canApply (Some ''has'') (Some ''have'')" by (simp add: canApply_def)
  have j: "indexOf ''I has a dog'' ''has'' = Some 2" by simp
  have d: "CHR ''$'' \<notin> set ''have''" by simp
  have t: "take 2 ''I has a dog'' @ ''have'' @ drop (2 + length ''has'') ''I has a dog''
      = ''I have a dog''" by (simp add: numeral_2_eq_2)
  have n: "\<not> includes_str (take 2 ''I has a dog'' @ ''have''
      @ drop (2 + length ''has'') ''I has a dog'') ''has''"
    unfolding t by (simp add: includes_str_def)
  from apply_twice [OF e c j d n, of False False] e c j d n
  show ?thesis unfolding t by simp
qed

section \<open>A failed analysis\<close>

text \<open>
  Whatever the state is when a failed request settles, settling installs no result and
  clears the loading flag.
\<close>

lemma handleAnalyze_settle_failed:
  "failed outcome \<Longrightarrow>
     loading (handleAnalyze_settle outcome s) = False
     \<and> result (handleAnalyze_settle outcome s) = result s
     \<and> essay (handleAnalyze_settle outcome s) = essay s
     \<and> history (handleAnalyze_settle outcome s) = history s"
  by (cases outcome) (simp_all add: handleAnalyze_settle_def)

text \<open>
  An essay is typed and analysed, so that a result is installed; a second request gets a
  response that is not \<open>ok\<close>: after it no result is installed any more.
\<close>

theorem handleAnalyze_failure_counterexample:
  "trim ''Some essay'' \<noteq> []
   \<and> result (projr (handleAnalyze (ResponseOk exampleFeedback)
        (updateEssay ''Some essay'' None mounted))) = Some exampleFeedback
   \<and> result (projr (handleAnalyze ResponseNotOk
        (projr (handleAnalyze (ResponseOk exampleFeedback)
           (updateEssay ''Some essay'' None mounted))))) = None"
proof -
  have t: "trim ''Some essay'' \<noteq> []" by (simp add: trim_def isWhiteSpace_def)
  have e: "essay (updateEssay ''Some essay'' None mounted) = Some ''Some essay''"
    by (simp add: updateEssay_essay)
  from t e show ?thesis
    by (simp add: handleAnalyze_def handleAnalyze_settle_def)
qed

text \<open>
  Claim C2, as the code has it. When the analysis request fails (the fetch rejects, the
  response is not \<open>ok\<close> or its body cannot be read), \<open>handleAnalyze\<close> ends with the
  loading flag cleared, the generic error message set and no result installed: the result
  installed before, if any, was discarded when the request was sent.
\<close>

theorem handleAnalyze_failure:
  assumes "essay s = Some e" and "trim e \<noteq> []" and "failed outcome"
  shows "\<exists>s'. handleAnalyze outcome s = Inr s'
           \<and> loading s' = False
           \<and> result s' = None
           \<and> error s' = ''Something went wrong. Please try again.''"
  using assms by (cases outcome) (simp_all add: handleAnalyze_def handleAnalyze_settle_def)

theorem handleAnalyze_failure_witness:
  "result (projr (handleAnalyze (ResponseOk exampleFeedback)
        (updateEssay ''Some essay'' None mounted))) = Some exampleFeedback
   \<and> essay (projr (handleAnalyze (ResponseOk exampleFeedback)
        (updateEssay ''Some essay'' None mounted))) = Some ''Some essay''
   \<and> trim ''Some essay'' \<noteq> []
   \<and> failed FetchRejected
   \<and> (\<exists>s'. handleAnalyze FetchRejected
               (projr (handleAnalyze (ResponseOk exampleFeedback)
                  (updateEssay ''Some essay'' None mounted))) = Inr s'
          \<and> loading s' = False
          \<and> result s' = None
          \<and> error s' = ''Something went wrong. Please try again.'')"
proof -
  let ?s = "projr (handleAnalyze (ResponseOk exampleFeedback)
              (updateEssay ''Some essay'' None mounted))"
  have t: "trim ''Some essay'' \<noteq> []" by (simp add: trim_def isWhiteSpace_def)
  have e0: "essay (updateEssay ''Some essay'' None mounted) = Some ''Some essay''"
    by (simp add: updateEssay_essay)
  from t e0 have e: "essay ?s = Some ''Some essay''" and r: "result ?s = Some exampleFeedback"
    by (simp_all add: handleAnalyze_def handleAnalyze_settle_def)
  have f: "failed FetchRejected" by simp
  from handleAnalyze_failure [OF e t f] e r t f show ?thesis by simp
qed

section \<open>The history\<close>

lemma handleUndo_mounted: "handleUndo mounted = mounted"
  by (simp add: handleUndo_def mounted_fields)

lemma handleRedo_mounted: "handleRedo mounted = mounted"
  by (simp add: handleRedo_def mounted_fields)

lemma consistent_updateEssay: "consistent (updateEssay x cs s)"
  by (simp add: consistent_def updateEssay_essay updateEssay_historyIndex updateEssay_history)

lemma consistent_handleUndo: "consistent s \<Longrightarrow> consistent (handleUndo s)"
  by (simp add: consistent_def handleUndo_def index_def)

lemma consistent_handleRedo: "consistent s \<Longrightarrow> consistent (handleRedo s)"
  by (simp add: consistent_def handleRedo_def index_def nat_add_distrib)

lemma consistent_step: "consistent s \<Longrightarrow> consistent (step opn s)"
  by (cases opn) (simp_all add: consistent_updateEssay consistent_handleUndo consistent_handleRedo)

lemma consistent_run: "consistent s \<Longrightarrow> consistent (run ops s)"
  by (induction ops arbitrary: s) (simp_all add: consistent_step)

lemma run_mounted:
  "if list_ex isSetText ops then consistent (run ops mounted) else run ops mounted = mounted"
proof (induction ops)
  case Nil
  show ?case by simp
next
  case (Cons opn ops)
  show ?case
  proof (cases opn)
    case (SetText x cs)
    have "consistent (run ops (updateEssay x cs mounted))"
      by (rule consistent_run) (rule consistent_updateEssay)
    with SetText show ?thesis by simp
  next
    case Undo
    with Cons show ?thesis by (simp add: handleUndo_mounted)
  next
    case Redo
    with Cons show ?thesis by (simp add: handleRedo_mounted)
  qed
qed

text \<open>
  Before the first edit the cursor is \<open>-1\<close> and the history is empty: the cursor is not
  an index of the history after the empty sequence, nor after undo and redo alone.
\<close>

theorem history_consistency_counterexample:
  "\<not> consistent (run [] mounted) \<and> \<not> consistent (run [Undo, Redo] mounted)"
  by (simp add: consistent_def handleUndo_mounted handleRedo_mounted mounted_fields)

text \<open>
  Claim C6, as the code has it. Take any sequence of \<open>setText\<close>, undo and redo calls
  from the mounted page, and any prefix of it. If the prefix holds a \<open>setText\<close>, then
  after it the cursor is an index of the history and the essay is the snapshot at the
  cursor; otherwise the page is still in the state it was mounted in (no snapshot, cursor
  \<open>-1\<close>). In the state after the prefix, undo with the cursor at 0 changes nothing, and
  redo with the cursor at the last index changes nothing.
\<close>

theorem history_consistency:
  "(if list_ex isSetText (take n ops) then consistent (run (take n ops) mounted)
    else run (take n ops) mounted = mounted)
   \<and> (historyIndex (run (take n ops) mounted) = 0 \<longrightarrow>
        handleUndo (run (take n ops) mounted) = run (take n ops) mounted)
   \<and> (historyIndex (run (take n ops) mounted)
        = int (length (history (run (take n ops) mounted))) - 1 \<longrightarrow>
        handleRedo (run (take n ops) mounted) = run (take n ops) mounted)"
  using run_mounted [of "take n ops"] by (simp add: handleUndo_def handleRedo_def)

theorem history_consistency_witness:
  "list_ex isSetText (take 3 [SetText ''a'' None, SetText ''ab'' None, Undo, Redo])
   \<and> consistent (run (take 3 [SetText ''a'' None, SetText ''ab'' None, Undo, Redo]) mounted)
   \<and> essay (run (take 3 [SetText ''a'' None, SetText ''ab'' None, Undo, Redo]) mounted) = Some ''a''
   \<and> historyIndex (run (take 3 [SetText ''a'' None, SetText ''ab'' None, Undo, Redo]) mounted) = 0
   \<and> handleUndo (run (take 3 [SetText ''a'' None, SetText ''ab'' None, Undo, Redo]) mounted)
       = run (take 3 [SetText ''a'' None, SetText ''ab'' None, Undo, Redo]) mounted
   \<and> historyIndex (run (take 4 [SetText ''a'' None, SetText ''ab'' None, Undo, Redo]) mounted)
       = int (length (history (run (take 4 [SetText ''a'' None, SetText ''ab'' None, Undo, Redo]) mounted))) - 1
   \<and> handleRedo (run (take 4 [SetText ''a'' None, SetText ''ab'' None, Undo, Redo]) mounted)
       = run (take 4 [SetText ''a'' None, SetText ''ab'' None, Undo, Redo]) mounted"
proof -
  let ?ops = "[SetText ''a'' None, SetText ''ab'' None, Undo, Redo]"
  have t3: "take 3 ?ops = [SetText ''a'' None, SetText ''ab'' None, Undo]"
    and t4: "take 4 ?ops = ?ops"
    by (simp_all add: numeral_3_eq_3)
  have s3: "historyIndex (run (take 3 ?ops) mounted) = 0"
    "essay (run (take 3 ?ops) mounted) = Some ''a''"
    unfolding t3
    by (simp_all add: updateEssay_def handleUndo_def mounted_fields slice0_def index_def Let_def)
  have s4: "historyIndex (run (take 4 ?ops) mounted)
      = int (length (history (run (take 4 ?ops) mounted))) - 1"
    unfolding t4
    by (simp add: updateEssay_def handleUndo_def handleRedo_def mounted_fields slice0_def
        index_def Let_def)
  have l3: "list_ex isSetText (take 3 ?ops)" unfolding t3 by simp
  from history_consistency [of 3 ?ops] history_consistency [of 4 ?ops] s3 s4 l3
  show ?thesis by simp
qed

text \<open>
  Claim C7. From any state whose cursor is greater than 0, undo followed by
  \<open>updateEssay x\<close> gives the history made of the snapshots before the old cursor and
  of \<open>x\<close>; the cursor is its last index, and redo changes nothing: no snapshot that was
  at or after the old cursor is left.
\<close>

theorem undo_then_setText:
  assumes "0 < historyIndex s"
  shows "history (updateEssay x cs (handleUndo s)) = take (nat (historyIndex s)) (history s) @ [x]
    \<and> historyIndex (updateEssay x cs (handleUndo s))
        = int (length (history (updateEssay x cs (handleUndo s)))) - 1
    \<and> handleRedo (updateEssay x cs (handleUndo s)) = updateEssay x cs (handleUndo s)"
proof -
  let ?u = "handleUndo s"
  from assms have u: "historyIndex ?u = historyIndex s - 1" "history ?u = history s"
    by (simp_all add: handleUndo_def)
  from assms have "slice0 (history s) (historyIndex s - 1 + 1) = take (nat (historyIndex s - 1 + 1)) (history s)"
    by (intro slice0_take) simp
  then have h: "history (updateEssay x cs ?u) = take (nat (historyIndex s)) (history s) @ [x]"
    by (simp add: updateEssay_history u)
  have i: "historyIndex (updateEssay x cs ?u) = int (length (history (updateEssay x cs ?u))) - 1"
    by (rule updateEssay_historyIndex)
  then have "handleRedo (updateEssay x cs ?u) = updateEssay x cs ?u"
    by (simp add: handleRedo_def)
  with h i show ?thesis by simp
qed

theorem undo_then_setText_witness:
  "0 < historyIndex (run [SetText ''a'' None, SetText ''ab'' None, SetText ''abc'' None] mounted)
   \<and> history (run [SetText ''a'' None, SetText ''ab'' None, SetText ''abc'' None] mounted)
       = [''a'', ''ab'', ''abc'']
   \<and> history (updateEssay ''x'' None (handleUndo
        (run [SetText ''a'' None, SetText ''ab'' None, SetText ''abc'' None] mounted)))
       = [''a'', ''ab'', ''x'']
   \<and> historyIndex (updateEssay ''x'' None (handleUndo
        (run [SetText ''a'' None, SetText ''ab'' None, SetText ''abc'' None] mounted))) = 2
   \<and> handleRedo (updateEssay ''x'' None (handleUndo
        (run [SetText ''a'' None, SetText ''ab'' None, SetText ''abc'' None] mounted)))
       = updateEssay ''x'' None (handleUndo
        (run [SetText ''a'' None, SetText ''ab'' None, SetText ''abc'' None] mounted))"
proof -
  let ?s = "run [SetText ''a'' None, SetText ''ab'' None, SetText ''abc'' None] mounted"
  have f: "historyIndex ?s = 2" "history ?s = [''a'', ''ab'', ''abc'']"
    by (simp_all add: updateEssay_def mounted_fields slice0_def Let_def)
  then have p: "0 < historyIndex ?s" by simp
  from undo_then_setText [OF p, of "''x''" None] f p show ?thesis
    by (simp add: numeral_2_eq_2)
qed

text \<open>
  After a fix was applied the last modified text is set and the cursor is 1; undo
  restores the essay and leaves the last modified text set.
\<close>

theorem handleUndo_highlight_counterexample:
  "lastModifiedText (projr (applyFix ''has'' ''have'' False (updateEssay ''I has'' None mounted)))
     = Some ''have''
   \<and> historyIndex (projr (applyFix ''has'' ''have'' False (updateEssay ''I has'' None mounted))) = 1
   \<and> essay (handleUndo (projr (applyFix ''has'' ''have'' False (updateEssay ''I has'' None mounted))))
       = Some ''I has''
   \<and> lastModifiedText
        (handleUndo (projr (applyFix ''has'' ''have'' False (updateEssay ''I has'' None mounted))))
       \<noteq> None"
  by (simp add: applyFix_def updateEssay_def handleUndo_def mounted_fields slice0_def index_def
      replace_def Let_def)

text \<open>
  Claim C8, as the code has it. In a state where the last modified text is set and the
  cursor is greater than 0 (and at most the length of the history), undo moves the cursor
  back by one, makes the essay the snapshot there, and leaves the last modified text as it
  was: \<open>handleUndo\<close> does not clear it.
\<close>

theorem handleUndo_highlight:
  assumes "lastModifiedText s = Some m"
    and "0 < historyIndex s" and "historyIndex s \<le> int (length (history s))"
  shows "historyIndex (handleUndo s) = historyIndex s - 1
    \<and> essay (handleUndo s) = Some (history s ! nat (historyIndex s - 1))
    \<and> history (handleUndo s) = history s
    \<and> lastModifiedText (handleUndo s) = Some m"
  using assms by (simp add: handleUndo_def index_def)

theorem handleUndo_highlight_witness:
  "lastModifiedText (updateEssay ''I have'' (Some ''have'') (updateEssay ''I has'' None mounted))
     = Some ''have''
   \<and> 0 < historyIndex (updateEssay ''I have'' (Some ''have'') (updateEssay ''I has'' None mounted))
   \<and> historyIndex (updateEssay ''I have'' (Some ''have'') (updateEssay ''I has'' None mounted))
       \<le> int (length (history
            (updateEssay ''I have'' (Some ''have'') (updateEssay ''I has'' None mounted))))
   \<and> historyIndex (handleUndo
        (updateEssay ''I have'' (Some ''have'') (updateEssay ''I has'' None mounted))) = 0
   \<and> essay (handleUndo
        (updateEssay ''I have'' (Some ''have'') (updateEssay ''I has'' None mounted))) = Some ''I has''
   \<and> lastModifiedText (handleUndo
        (updateEssay ''I have'' (Some ''have'') (updateEssay ''I has'' None mounted))) = Some ''have''"
proof -
  let ?s = "updateEssay ''I have'' (Some ''have'') (updateEssay ''I has'' None mounted)"
  have f: "lastModifiedText ?s = Some ''have''" "historyIndex ?s = 1"
    "history ?s = [''I has'', ''I have'']"
    by (simp_all add: updateEssay_def mounted_fields slice0_def Let_def)
  then have a: "0 < historyIndex ?s" and b: "historyIndex ?s \<le> int (length (history ?s))"
    by simp_all
  from handleUndo_highlight [OF f(1) a b] f show ?thesis by simp
qed

lemma oldest_step:
  "history s \<noteq> [] \<and> 0 \<le> historyIndex s \<and> hd (history s) = x \<Longrightarrow>
   history (step opn s) \<noteq> [] \<and> 0 \<le> historyIndex (step opn s) \<and> hd (history (step opn s)) = x"
proof (cases opn)
  case (SetText y cs)
  assume a: "history s \<noteq> [] \<and> 0 \<le> historyIndex s \<and> hd (history s) = x"
  then have sl: "slice0 (history s) (historyIndex s + 1) = take (nat (historyIndex s + 1)) (history s)"
    by (intro slice0_take) simp
  from a have "take (nat (historyIndex s + 1)) (history s) \<noteq> []" by simp
  moreover from a have "hd (take (nat (historyIndex s + 1)) (history s)) = x"
    by (cases "history s") (simp_all add: nat_add_distrib)
  ultimately show ?thesis using SetText sl
    by (simp add: updateEssay_history updateEssay_historyIndex)
next
  case Undo
  assume "history s \<noteq> [] \<and> 0 \<le> historyIndex s \<and> hd (history s) = x"
  with Undo show ?thesis by (simp add: handleUndo_def)
next
  case Redo
  assume "history s \<noteq> [] \<and> 0 \<le> historyIndex s \<and> hd (history s) = x"
  with Redo show ?thesis by (simp add: handleRedo_def)
qed

lemma oldest_run:
  "history s \<noteq> [] \<and> 0 \<le> historyIndex s \<and> hd (history s) = x \<Longrightarrow>
   history (run ops s) \<noteq> [] \<and> 0 \<le> historyIndex (run ops s) \<and> hd (history (run ops s)) = x"
proof (induction ops arbitrary: s)
  case Nil
  then show ?case by simp
next
  case (Cons opn ops)
  from Cons.IH [OF oldest_step [OF Cons.prems]] show ?case by simp
qed

lemma set_slice0: "set (slice0 xs k) \<subseteq> set xs"
  by (auto simp: slice0_def Let_def dest: in_set_takeD)

lemma history_step:
  "set (history s) \<subseteq> T \<Longrightarrow> set (writtenTexts [opn]) \<subseteq> T \<Longrightarrow> set (history (step opn s)) \<subseteq> T"
proof (cases opn)
  case (SetText y cs)
  assume "set (history s) \<subseteq> T" and "set (writtenTexts [opn]) \<subseteq> T"
  with SetText set_slice0 [of "history s" "historyIndex s + 1"] show ?thesis
    by (auto simp: updateEssay_history)
next
  case Undo
  assume "set (history s) \<subseteq> T"
  with Undo show ?thesis by (simp add: handleUndo_def)
next
  case Redo
  assume "set (history s) \<subseteq> T"
  with Redo show ?thesis by (simp add: handleRedo_def)
qed

lemma writtenTexts_Cons: "set (writtenTexts (opn # ops)) = set (writtenTexts [opn]) \<union> set (writtenTexts ops)"
  by (cases opn) auto

lemma history_run:
  "set (history s) \<subseteq> T \<Longrightarrow> set (writtenTexts ops) \<subseteq> T \<Longrightarrow> set (history (run ops s)) \<subseteq> T"
proof (induction ops arbitrary: s)
  case Nil
  then show ?case by simp
next
  case (Cons opn ops)
  from Cons.prems(2) have a: "set (writtenTexts [opn]) \<subseteq> T" and b: "set (writtenTexts ops) \<subseteq> T"
    by (simp_all add: writtenTexts_Cons [of opn ops])
  from history_step [OF Cons.prems(1) a] have "set (history (step opn s)) \<subseteq> T" .
  from Cons.IH [OF this b] show ?case by simp
qed

text \<open>
  Claim C10. The mounted page has no snapshot and its cursor is \<open>-1\<close>: the initial
  text is not recorded. The first \<open>updateEssay x\<close> makes \<open>x\<close> the only snapshot,
  with the cursor at 0, and undo right after it changes nothing. Whatever calls of
  \<open>setText\<close>, undo and redo follow, the essay is the snapshot at the cursor, the cursor
  never goes below 0, the oldest snapshot stays \<open>x\<close>, and every snapshot (the essay
  among them) is a text that some \<open>setText\<close> wrote: undo never brings back the text
  from before the first edit.
\<close>

theorem first_edit_is_oldest_snapshot:
  "history mounted = [] \<and> historyIndex mounted = - 1
   \<and> history (updateEssay x cs mounted) = [x]
   \<and> historyIndex (updateEssay x cs mounted) = 0
   \<and> handleUndo (updateEssay x cs mounted) = updateEssay x cs mounted
   \<and> consistent (run (SetText x cs # ops) mounted)
   \<and> 0 \<le> historyIndex (run (SetText x cs # ops) mounted)
   \<and> hd (history (run (SetText x cs # ops) mounted)) = x
   \<and> set (history (run (SetText x cs # ops) mounted)) \<subseteq> set (writtenTexts (SetText x cs # ops))
   \<and> essay (run (SetText x cs # ops) mounted)
       \<in> Some ` set (writtenTexts (SetText x cs # ops))"
proof -
  let ?s = "run (SetText x cs # ops) mounted"
  have h: "history (updateEssay x cs mounted) = [x]"
    by (simp add: updateEssay_history mounted_fields slice0_def)
  then have i: "historyIndex (updateEssay x cs mounted) = 0"
    by (simp add: updateEssay_historyIndex)
  then have u: "handleUndo (updateEssay x cs mounted) = updateEssay x cs mounted"
    by (simp add: handleUndo_def)
  from h i have "history (updateEssay x cs mounted) \<noteq> [] \<and> 0 \<le> historyIndex (updateEssay x cs mounted)
      \<and> hd (history (updateEssay x cs mounted)) = x" by simp
  from oldest_run [OF this, of ops] have old: "0 \<le> historyIndex ?s" "hd (history ?s) = x"
    by simp_all
  have c: "consistent ?s"
    using consistent_run [OF consistent_updateEssay, of ops x cs mounted] by simp
  from h have "set (history (updateEssay x cs mounted)) \<subseteq> set (writtenTexts (SetText x cs # ops))"
    by simp
  from history_run [OF this, of ops] have sub: "set (history ?s) \<subseteq> set (writtenTexts (SetText x cs # ops))"
    by auto
  from c have "essay ?s = Some (history ?s ! nat (historyIndex ?s))"
    and "nat (historyIndex ?s) < length (history ?s)"
    by (simp_all add: consistent_def nat_less_iff)
  with sub have mem: "essay ?s \<in> Some ` set (writtenTexts (SetText x cs # ops))"
    by (metis imageI nth_mem subsetD)
  from h i u old c sub mem show ?thesis by (simp add: mounted_fields)
qed

section \<open>Suggestions with an empty target\<close>

text \<open>
  Claim C9. Whatever the essay, a prioritized suggestion, a vocabulary item or a tip
  whose target is the empty string is never reported applied, has no apply control
  (\<open>canApply\<close> is false), and so never has an enabled one.
\<close>

theorem empty_target_informational:
  "(apply_to_text item = Some [] \<longrightarrow>
      \<not> isApplied e (apply_to_text item)
      \<and> \<not> canApply (apply_to_text item) (replacement_text item)
      \<and> \<not> applyEnabled e (apply_to_text item) (replacement_text item))
   \<and> (target_text vocab = Some [] \<longrightarrow>
      \<not> isApplied e (target_text vocab)
      \<and> \<not> canApply (target_text vocab) (vreplacement_text vocab)
      \<and> \<not> applyEnabled e (target_text vocab) (vreplacement_text vocab))
   \<and> (tip_apply_to_text t = Some [] \<longrightarrow>
      \<not> isApplied e (tip_apply_to_text t)
      \<and> \<not> canApply (tip_apply_to_text t) (tip_replacement_text t)
      \<and> \<not> applyEnabled e (tip_apply_to_text t) (tip_replacement_text t))"
  by (simp add: isApplied_def canApply_def applyEnabled_def)

theorem empty_target_informational_witness:
  "apply_to_text exampleSuggestion = Some []
   \<and> \<not> isApplied ''I has a dog'' (apply_to_text exampleSuggestion)
   \<and> \<not> canApply (apply_to_text exampleSuggestion) (replacement_text exampleSuggestion)
   \<and> \<not> applyEnabled ''I has a dog'' (apply_to_text exampleSuggestion)
         (replacement_text exampleSuggestion)
   \<and> target_text exampleVocabulary = Some []
   \<and> \<not> isApplied ''I has a dog'' (target_text exampleVocabulary)
   \<and> \<not> canApply (target_text exampleVocabulary) (vreplacement_text exampleVocabulary)
   \<and> \<not> applyEnabled ''I has a dog'' (target_text exampleVocabulary)
         (vreplacement_text exampleVocabulary)
   \<and> tip_apply_to_text exampleTip = Some []
   \<and> \<not> isApplied ''I has a dog'' (tip_apply_to_text exampleTip)
   \<and> \<not> canApply (tip_apply_to_text exampleTip) (tip_replacement_text exampleTip)
   \<and> \<not> applyEnabled ''I has a dog'' (tip_apply_to_text exampleTip)
         (tip_replacement_text exampleTip)"
proof -
  have a: "apply_to_text exampleSuggestion = Some []" by (simp add: exampleSuggestion_def)
  have b: "target_text exampleVocabulary = Some []" by (simp add: exampleVocabulary_def)
  have c: "tip_apply_to_text exampleTip = Some []" by (simp add: exampleTip_def)
  from empty_target_informational [of exampleSuggestion "''I has a dog''" exampleVocabulary exampleTip]
    a b c
  show ?thesis by simp
qed

end
